theory Spec2Isabelle
  imports Main
begin

section \<open>Data model of \<open>sudoku.py\<close>\<close>

text \<open>
  The board is a 9x9 numpy array of digits, the working array a 9x9x10 array of booleans.
  Both are modelled as total functions of their indices; only the indices \<open>i, j < 9\<close> and
  \<open>n < 10\<close> are ever read or written by the program, and every sum over the working array
  ranges over exactly these indices.  In-place mutation is explicit state passing.
\<close>

type_synonym board = "nat \<Rightarrow> nat \<Rightarrow> nat"
type_synonym working = "nat \<Rightarrow> nat \<Rightarrow> nat \<Rightarrow> bool"

text \<open>A working array given by the table of its 9x9x10 entries.\<close>

definition table_working :: "bool list list list \<Rightarrow> working" where
  "table_working tab = (\<lambda>i j n. i < 9 \<and> j < 9 \<and> n < 10 \<and> tab ! i ! j ! n)"

datatype error = IndexError

definition count_true :: "(nat \<Rightarrow> bool) \<Rightarrow> nat \<Rightarrow> nat" where
  "count_true v len = length (filter v [0..<len])"

text \<open>\<open>working.sum()\<close>: the number of True entries of the 9x9x10 array.\<close>

definition wsum :: "working \<Rightarrow> nat" where
  "wsum w = (\<Sum>i\<leftarrow>[0..<9]. \<Sum>j\<leftarrow>[0..<9]. count_true (w i j) 10)"

text \<open>\<open>flatnonzero(v)[0]\<close> on a vector of the given length; the index raises on an empty result.\<close>

definition first_nonzero :: "(nat \<Rightarrow> bool) \<Rightarrow> nat \<Rightarrow> error + nat" where
  "first_nonzero v len = (case filter v [0..<len] of [] \<Rightarrow> Inl IndexError | k # _ \<Rightarrow> Inr k)"

subsection \<open>\<open>init_working\<close>\<close>

text \<open>
  The array is built once: every entry starts False, and the entries of a blank cell are set
  for the digits of \<open>most_set\<close> missing from its row, its column and its block.
\<close>

definition init_table :: "board \<Rightarrow> bool list list list" where
  "init_table b =
     (let zero_set = {0};
          most_set = set [1..<10];
          rows = map (\<lambda>i. set (map (\<lambda>j. b i j) [0..<9]) - zero_set) [0..<9];
          cols = map (\<lambda>j. set (map (\<lambda>i. b i j) [0..<9]) - zero_set) [0..<9];
          blocks = map (\<lambda>x. map (\<lambda>y.
                     set (map (\<lambda>(i, j). b i j) (List.product [3 * x..<3 * x + 3] [3 * y..<3 * y + 3])) - zero_set)
                     [0..<3]) [0..<3]
      in map (\<lambda>i. map (\<lambda>j. map (\<lambda>n.
               if b i j = 0 then n \<in> most_set - rows ! i - cols ! j - blocks ! (i div 3) ! (j div 3)
               else False)
             [0..<10]) [0..<9]) [0..<9])"

definition init_working :: "board \<Rightarrow> working" where
  "init_working b = table_working (init_table b)"

subsection \<open>\<open>set_board_value\<close>\<close>

definition set_board_value :: "board \<Rightarrow> working \<Rightarrow> nat \<Rightarrow> nat \<Rightarrow> nat \<Rightarrow> board \<times> working" where
  "set_board_value b w i j n =
     (let b' = b(i := (b i)(j := n));
          w1 = (\<lambda>a c d. if a = i \<and> d = n then False else w a c d);
          w2 = (\<lambda>a c d. if c = j \<and> d = n then False else w1 a c d);
          w3 = (\<lambda>a c d. if a = i \<and> c = j then False else w2 a c d);
          x = (i div 3) * 3;
          y = (j div 3) * 3;
          w4 = (\<lambda>a c d. if x \<le> a \<and> a < x + 3 \<and> y \<le> c \<and> c < y + 3 \<and> d = n
                          then False else w3 a c d)
      in (b', w4))"

subsection \<open>\<open>find_simple_values\<close> and \<open>find_simple_values_in_block\<close>\<close>

text \<open>
  \<open>(working.sum(axis) == 1).nonzero()\<close>: the positions of the summed array, in row-major
  order, whose line along \<open>axis\<close> holds exactly one True.  The snapshot is taken once,
  before the assignments of the pass.
\<close>

definition simple_found :: "working \<Rightarrow> nat \<Rightarrow> (nat \<times> nat) list" where
  "simple_found w axis =
     (if axis = 0 then filter (\<lambda>(a, b). count_true (\<lambda>i. w i a b) 9 = 1) (List.product [0..<9] [0..<10])
      else if axis = 1 then filter (\<lambda>(a, b). count_true (\<lambda>j. w a j b) 9 = 1) (List.product [0..<9] [0..<10])
      else filter (\<lambda>(a, b). count_true (\<lambda>n. w a b n) 10 = 1) (List.product [0..<9] [0..<9]))"

text \<open>The cell and digit of one snapshot position, read from the live working array.\<close>

definition simple_target :: "working \<Rightarrow> nat \<Rightarrow> nat \<Rightarrow> nat \<Rightarrow> error + (nat \<times> nat \<times> nat)" where
  "simple_target w axis a b =
     (if axis = 0 then (case first_nonzero (\<lambda>i. w i a b) 9 of Inl e \<Rightarrow> Inl e | Inr i \<Rightarrow> Inr (i, a, b))
      else if axis = 1 then (case first_nonzero (\<lambda>j. w a j b) 9 of Inl e \<Rightarrow> Inl e | Inr j \<Rightarrow> Inr (a, j, b))
      else (case first_nonzero (\<lambda>n. w a b n) 10 of Inl e \<Rightarrow> Inl e | Inr n \<Rightarrow> Inr (a, b, n)))"

fun simple_loop :: "nat \<Rightarrow> (nat \<times> nat) list \<Rightarrow> board \<times> working \<Rightarrow> error + (board \<times> working)" where
  "simple_loop axis [] s = Inr s"
| "simple_loop axis ((a, b) # rest) (brd, w) =
     (case simple_target w axis a b of
        Inl e \<Rightarrow> Inl e
      | Inr (i, j, n) \<Rightarrow> simple_loop axis rest (set_board_value brd w i j n))"

definition find_simple_values :: "board \<Rightarrow> working \<Rightarrow> nat \<Rightarrow> error + (bool \<times> board \<times> working)" where
  "find_simple_values brd w axis =
     (let found = simple_found w axis in
      if found = [] then Inr (False, brd, w)
      else (case simple_loop axis found (brd, w) of
              Inl e \<Rightarrow> Inl e
            | Inr s \<Rightarrow> Inr (True, s)))"

text \<open>
  The strided view \<open>working_blocks[x,y,xi,xj,n]\<close> is \<open>working[3x+xi, 3y+xj, n]\<close>.
\<close>

definition block_cells :: "(nat \<times> nat) list" where
  "block_cells = List.product [0..<3] [0..<3]"

definition block_found :: "working \<Rightarrow> (nat \<times> nat \<times> nat) list" where
  "block_found w =
     filter (\<lambda>(x, y, n). length (filter (\<lambda>(xi, xj). w (3 * x + xi) (3 * y + xj) n) block_cells) = 1)
       (List.product [0..<3] (List.product [0..<3] [0..<10]))"

fun block_assign :: "nat \<Rightarrow> nat \<Rightarrow> nat \<Rightarrow> (nat \<times> nat) list \<Rightarrow> board \<times> working \<Rightarrow> board \<times> working" where
  "block_assign x y n [] s = s"
| "block_assign x y n ((i, j) # rest) (brd, w) =
     block_assign x y n rest (set_board_value brd w (i + x * 3) (j + y * 3) n)"

fun block_loop :: "(nat \<times> nat \<times> nat) list \<Rightarrow> board \<times> working \<Rightarrow> board \<times> working" where
  "block_loop [] s = s"
| "block_loop ((x, y, n) # rest) (brd, w) =
     block_loop rest
       (block_assign x y n (filter (\<lambda>(xi, xj). w (3 * x + xi) (3 * y + xj) n) block_cells) (brd, w))"

definition find_simple_values_in_block :: "board \<Rightarrow> working \<Rightarrow> bool \<times> board \<times> working" where
  "find_simple_values_in_block brd w =
     (let found = block_found w in
      if found = [] then (False, brd, w) else (True, block_loop found (brd, w)))"

section \<open>Reducing the working space\<close>

text \<open>Clearing entries: \<open>working[...] = False\<close> on the positions selected by \<open>sel\<close>.\<close>

definition clear_where :: "(nat \<Rightarrow> nat \<Rightarrow> nat \<Rightarrow> bool) \<Rightarrow> working \<Rightarrow> working" where
  "clear_where sel w = (\<lambda>a c d. if sel a c d then False else w a c d)"

subsection \<open>Method 1\<close>

text \<open>
  \<open>working_block_rows[x,j,n]\<close> is the \<open>any\<close> over the three rows \<open>3x..3x+2\<close> of
  \<open>working[.,j,n]\<close>; \<open>working_block_cols[i,y,n]\<close> the \<open>any\<close> over the three columns
  \<open>3y..3y+2\<close> of \<open>working[i,.,n]\<close>.  Both are copies, taken before their loop.
\<close>

definition block_rows :: "working \<Rightarrow> nat \<Rightarrow> nat \<Rightarrow> nat \<Rightarrow> bool" where
  "block_rows w x j n = (\<exists>r \<in> set [0..<3]. w (3 * x + r) j n)"

definition block_cols :: "working \<Rightarrow> nat \<Rightarrow> nat \<Rightarrow> nat \<Rightarrow> bool" where
  "block_cols w i y n = (\<exists>r \<in> set [0..<3]. w i (3 * y + r) n)"

fun m1_rows_loop :: "(nat \<Rightarrow> nat \<Rightarrow> nat \<Rightarrow> bool) \<Rightarrow> (nat \<times> nat) list \<Rightarrow> working \<Rightarrow> error + working" where
  "m1_rows_loop wbr [] w = Inr w"
| "m1_rows_loop wbr ((j, n) # rest) w =
     (case first_nonzero (\<lambda>x. wbr x j n) 3 of
        Inl e \<Rightarrow> Inl e
      | Inr x0 \<Rightarrow>
          (let x = x0 * 3; y = j div 3 * 3 in
           m1_rows_loop wbr rest
             (clear_where (\<lambda>a c d. x \<le> a \<and> a < x + 3 \<and> c \<in> set (filter (\<lambda>y'. y' \<noteq> j) [y..<y + 3]) \<and> d = n) w)))"

fun m1_cols_loop :: "(nat \<Rightarrow> nat \<Rightarrow> nat \<Rightarrow> bool) \<Rightarrow> (nat \<times> nat) list \<Rightarrow> working \<Rightarrow> error + working" where
  "m1_cols_loop wbc [] w = Inr w"
| "m1_cols_loop wbc ((i, n) # rest) w =
     (case first_nonzero (\<lambda>y. wbc i y n) 3 of
        Inl e \<Rightarrow> Inl e
      | Inr y0 \<Rightarrow>
          (let x = i div 3 * 3; y = y0 * 3 in
           m1_cols_loop wbc rest
             (clear_where (\<lambda>a c d. a \<in> set (filter (\<lambda>x'. x' \<noteq> i) [x..<x + 3]) \<and> y \<le> c \<and> c < y + 3 \<and> d = n) w)))"

definition wr_method_1 :: "working \<Rightarrow> error + working" where
  "wr_method_1 w =
     (let wbr = block_rows w;
          found = filter (\<lambda>(j, n). count_true (\<lambda>x. wbr x j n) 3 = 1) (List.product [0..<9] [0..<10])
      in case m1_rows_loop wbr found w of
           Inl e \<Rightarrow> Inl e
         | Inr w' \<Rightarrow>
             (let wbc = block_cols w';
                  found' = filter (\<lambda>(i, n). count_true (\<lambda>y. wbc i y n) 3 = 1) (List.product [0..<9] [0..<10])
              in m1_cols_loop wbc found' w'))"

subsection \<open>Method 2\<close>

text \<open>
  \<open>working_blocks\<close> is a view, so \<open>working_blocks[x,y,:,:,n].nonzero()\<close> reads the live array;
  \<open>f[0]\<close> raises when an earlier iteration has emptied the block for \<open>n\<close>.
\<close>

definition block_nonzero :: "working \<Rightarrow> nat \<Rightarrow> nat \<Rightarrow> nat \<Rightarrow> (nat \<times> nat) list" where
  "block_nonzero w x y n = filter (\<lambda>(xi, xj). w (3 * x + xi) (3 * y + xj) n) block_cells"

definition m2_found_rows :: "working \<Rightarrow> (nat \<times> nat \<times> nat) list" where
  "m2_found_rows w =
     filter (\<lambda>(x, y, n). count_true (\<lambda>xi. \<exists>xj \<in> set [0..<3]. w (3 * x + xi) (3 * y + xj) n) 3 = 1)
       (List.product [0..<3] (List.product [0..<3] [0..<10]))"

definition m2_found_cols :: "working \<Rightarrow> (nat \<times> nat \<times> nat) list" where
  "m2_found_cols w =
     filter (\<lambda>(x, y, n). count_true (\<lambda>xj. \<exists>xi \<in> set [0..<3]. w (3 * x + xi) (3 * y + xj) n) 3 = 1)
       (List.product [0..<3] (List.product [0..<3] [0..<10]))"

fun m2_rows_loop :: "(nat \<times> nat \<times> nat) list \<Rightarrow> working \<Rightarrow> error + working" where
  "m2_rows_loop [] w = Inr w"
| "m2_rows_loop ((x, y, n) # rest) w =
     (case block_nonzero w x y n of
        [] \<Rightarrow> Inl IndexError
      | (f0, _) # _ \<Rightarrow>
          (let i = f0 + 3 * x in
           m2_rows_loop rest (clear_where (\<lambda>a c d. a = i \<and> c < 9 \<and> c div 3 \<noteq> y \<and> d = n) w)))"

fun m2_cols_loop :: "(nat \<times> nat \<times> nat) list \<Rightarrow> working \<Rightarrow> error + working" where
  "m2_cols_loop [] w = Inr w"
| "m2_cols_loop ((x, y, n) # rest) w =
     (case block_nonzero w x y n of
        [] \<Rightarrow> Inl IndexError
      | (_, f0) # _ \<Rightarrow>
          (let j = f0 + 3 * y in
           m2_cols_loop rest (clear_where (\<lambda>a c d. a < 9 \<and> a div 3 \<noteq> x \<and> c = j \<and> d = n) w)))"

definition wr_method_2 :: "working \<Rightarrow> error + working" where
  "wr_method_2 w =
     (case m2_rows_loop (m2_found_rows w) w of
        Inl e \<Rightarrow> Inl e
      | Inr w' \<Rightarrow> m2_cols_loop (m2_found_cols w') w')"

subsection \<open>Method 3\<close>

text \<open>
  The dictionary \<open>pairs\<close>, read with \<open>setdefault(key, [])\<close>, is a function from keys to lists
  of cells, everywhere empty at the start.
\<close>

type_synonym pairs = "nat \<times> nat \<Rightarrow> (nat \<times> nat) list"

definition m3_found :: "working \<Rightarrow> (nat \<times> nat) list" where
  "m3_found w = filter (\<lambda>(i, j). count_true (w i j) 10 = 2) (List.product [0..<9] [0..<9])"

text \<open>\<open>working[i,j,(n,m)] = True\<close> for the two cells of a pair.\<close>

definition add_back :: "nat \<Rightarrow> nat \<Rightarrow> nat \<Rightarrow> nat \<Rightarrow> nat \<Rightarrow> nat \<Rightarrow> working \<Rightarrow> working" where
  "add_back i j i2 j2 n m w =
     (\<lambda>a c d. if ((a = i \<and> c = j) \<or> (a = i2 \<and> c = j2)) \<and> (d = n \<or> d = m) then True else w a c d)"

text \<open>The body of the inner loop \<open>for (i2,j2) in p\<close>.\<close>

definition m3_pair_step :: "nat \<Rightarrow> nat \<Rightarrow> nat \<Rightarrow> nat \<Rightarrow> working \<Rightarrow> nat \<times> nat \<Rightarrow> working" where
  "m3_pair_step i j n m w c2 =
     (case c2 of (i2, j2) \<Rightarrow>
       (let x = i div 3; y = j div 3;
            same_block = (x = i2 div 3 \<and> y = j2 div 3);
            w1 = (if same_block
                  then clear_where (\<lambda>a c d. x * 3 \<le> a \<and> a < x * 3 + 3 \<and> y * 3 \<le> c \<and> c < y * 3 + 3 \<and>
                                              (d = n \<or> d = m)) w
                  else w)
        in if i = i2 then add_back i j i2 j2 n m (clear_where (\<lambda>a c d. a = i \<and> (d = n \<or> d = m)) w1)
           else if j = j2 then add_back i j i2 j2 n m (clear_where (\<lambda>a c d. c = j \<and> (d = n \<or> d = m)) w1)
           else if \<not> same_block then w1
           else add_back i j i2 j2 n m w1))"

text \<open>
  The scan over \<open>found\<close>.  The first component of the result says whether the scan stopped
  at a cell that no longer has two candidates, where the source calls itself and returns.
\<close>

fun m3_loop :: "(nat \<times> nat) list \<Rightarrow> pairs \<Rightarrow> working \<Rightarrow> bool \<times> working" where
  "m3_loop [] prs w = (False, w)"
| "m3_loop ((i, j) # rest) prs w =
     (case filter (w i j) [0..<10] of
        [n, m] \<Rightarrow>
          (let p = prs (n, m);
               w' = foldl (m3_pair_step i j n m) w p
           in m3_loop rest (prs((n, m) := p @ [(i, j)])) w')
      | _ \<Rightarrow> (True, w))"

subsection \<open>Method 4\<close>

text \<open>\<open>itertools.combinations\<close>, in its lexicographic order.\<close>

fun combinations :: "'a list \<Rightarrow> nat \<Rightarrow> 'a list list" where
  "combinations xs 0 = [[]]"
| "combinations [] (Suc k) = []"
| "combinations (x # xs) (Suc k) = map ((#) x) (combinations xs k) @ combinations xs (Suc k)"

definition m4_data :: "working \<Rightarrow> nat \<Rightarrow> nat \<Rightarrow> nat \<Rightarrow> bool" where
  "m4_data w N = (\<lambda>i j. 0 < count_true (w i j) 10 \<and> count_true (w i j) 10 \<le> N)"

text \<open>
  \<open>meshgrid(i, j, vals)\<close> with \<open>j\<close> the empty tuple yields index arrays of a floating dtype,
  which numpy refuses as indices: the assignment raises IndexError when the combination
  covers the whole line.
\<close>

fun m4_row_combos :: "nat \<Rightarrow> nat \<Rightarrow> nat list list \<Rightarrow> working \<Rightarrow> error + working" where
  "m4_row_combos N i [] w = Inr w"
| "m4_row_combos N i (c # cs) w =
     (let vals = filter (\<lambda>d. \<exists>j \<in> set c. w i j d) [0..<10] in
      if length vals = N then
        (let js = filter (\<lambda>j. j \<notin> set c) [0..<9] in
         if js = [] then Inl IndexError
         else m4_row_combos N i cs (clear_where (\<lambda>a c' d. a = i \<and> c' \<in> set js \<and> d \<in> set vals) w))
      else m4_row_combos N i cs w)"

fun m4_col_combos :: "nat \<Rightarrow> nat \<Rightarrow> nat list list \<Rightarrow> working \<Rightarrow> error + working" where
  "m4_col_combos N j [] w = Inr w"
| "m4_col_combos N j (c # cs) w =
     (let vals = filter (\<lambda>d. \<exists>i \<in> set c. w i j d) [0..<10] in
      if length vals = N then
        (let is = filter (\<lambda>i. i \<notin> set c) [0..<9] in
         if is = [] then Inl IndexError
         else m4_col_combos N j cs (clear_where (\<lambda>a c' d. a \<in> set is \<and> c' = j \<and> d \<in> set vals) w))
      else m4_col_combos N j cs w)"

fun m4_rows :: "(nat \<Rightarrow> nat \<Rightarrow> bool) \<Rightarrow> nat \<Rightarrow> nat list \<Rightarrow> working \<Rightarrow> error + working" where
  "m4_rows dat N [] w = Inr w"
| "m4_rows dat N (i # rest) w =
     (let cells = filter (\<lambda>j. dat i j) [0..<9] in
      if length cells < N then m4_rows dat N rest w
      else (case m4_row_combos N i (combinations cells N) w of
              Inl e \<Rightarrow> Inl e
            | Inr w' \<Rightarrow> m4_rows dat N rest w'))"

fun m4_cols :: "(nat \<Rightarrow> nat \<Rightarrow> bool) \<Rightarrow> nat \<Rightarrow> nat list \<Rightarrow> working \<Rightarrow> error + working" where
  "m4_cols dat N [] w = Inr w"
| "m4_cols dat N (j # rest) w =
     (let cells = filter (\<lambda>i. dat i j) [0..<9] in
      if length cells < N then m4_cols dat N rest w
      else (case m4_col_combos N j (combinations cells N) w of
              Inl e \<Rightarrow> Inl e
            | Inr w' \<Rightarrow> m4_cols dat N rest w'))"

definition wr_method_4 :: "working \<Rightarrow> nat \<Rightarrow> error + working" where
  "wr_method_4 w N =
     (let dat = m4_data w N in
      case m4_rows dat N [0..<9] w of
        Inl e \<Rightarrow> Inl e
      | Inr w' \<Rightarrow> m4_cols dat N [0..<9] w')"

section \<open>Candidates are only cleared\<close>

text \<open>
  On the working array the pointwise order \<open>w' \<le> w\<close> says that every entry set in \<open>w'\<close>
  is set in \<open>w\<close>: going from \<open>w\<close> to \<open>w'\<close> clears entries and sets none.
\<close>

lemma length_filter_mono:
  "(\<And>x. x \<in> set xs \<Longrightarrow> P x \<Longrightarrow> Q x) \<Longrightarrow> length (filter P xs) \<le> length (filter Q xs)"
  by (induction xs) auto

lemma length_filter_strict:
  "(\<And>x. x \<in> set xs \<Longrightarrow> P x \<Longrightarrow> Q x) \<Longrightarrow> z \<in> set xs \<Longrightarrow> Q z \<Longrightarrow> \<not> P z
     \<Longrightarrow> length (filter P xs) < length (filter Q xs)"
proof (induction xs)
  case Nil
  then show ?case by simp
next
  case (Cons a xs)
  have mono: "length (filter P xs) \<le> length (filter Q xs)"
    using Cons.prems(1) by (intro length_filter_mono) auto
  show ?case
  proof (cases "z = a")
    case True
    with Cons.prems mono show ?thesis by auto
  next
    case False
    with Cons.prems have "z \<in> set xs" by simp
    with Cons have "length (filter P xs) < length (filter Q xs)" by auto
    with Cons.prems(1)[of a] show ?thesis by auto
  qed
qed

lemma sum_list_nat_mono:
  fixes f g :: "'a \<Rightarrow> nat"
  shows "(\<And>x. x \<in> set xs \<Longrightarrow> f x \<le> g x) \<Longrightarrow> sum_list (map f xs) \<le> sum_list (map g xs)"
  by (induction xs) (auto intro: add_mono)

lemma sum_list_nat_strict:
  fixes f g :: "'a \<Rightarrow> nat"
  shows "(\<And>x. x \<in> set xs \<Longrightarrow> f x \<le> g x) \<Longrightarrow> z \<in> set xs \<Longrightarrow> f z < g z
     \<Longrightarrow> sum_list (map f xs) < sum_list (map g xs)"
proof (induction xs)
  case Nil
  then show ?case by simp
next
  case (Cons a xs)
  have mono: "sum_list (map f xs) \<le> sum_list (map g xs)"
    using Cons.prems(1) by (intro sum_list_nat_mono) auto
  show ?case
  proof (cases "z = a")
    case True
    with Cons.prems mono show ?thesis by (simp add: add_less_le_mono)
  next
    case False
    with Cons.prems have "z \<in> set xs" by simp
    with Cons have "sum_list (map f xs) < sum_list (map g xs)" by auto
    moreover have "f a \<le> g a" using Cons.prems(1) by simp
    ultimately show ?thesis by simp
  qed
qed

lemma count_true_mono: "v' \<le> v \<Longrightarrow> count_true v' len \<le> count_true v len"
  unfolding count_true_def by (rule length_filter_mono) (auto simp: le_fun_def)

lemma wsum_mono: "w' \<le> w \<Longrightarrow> wsum w' \<le> wsum w"
  unfolding wsum_def
  by (intro sum_list_nat_mono count_true_mono) (auto simp: le_fun_def)

lemma wsum_strict:
  assumes le: "w' \<le> w" and rng: "i < 9" "j < 9" "n < 10" and was: "w i j n" and now: "\<not> w' i j n"
  shows "wsum w' < wsum w"
proof -
  have cell: "count_true (w' i j) 10 < count_true (w i j) 10"
    unfolding count_true_def
    using le rng was now by (intro length_filter_strict[where z = n]) (auto simp: le_fun_def)
  have row: "(\<Sum>j\<leftarrow>[0..<9]. count_true (w' i j) 10) < (\<Sum>j\<leftarrow>[0..<9]. count_true (w i j) 10)"
    using le rng cell
    by (intro sum_list_nat_strict[where z = j] count_true_mono) (auto simp: le_fun_def)
  show ?thesis
    unfolding wsum_def
  proof (rule sum_list_nat_strict[where z = i])
    fix x
    show "(\<Sum>j\<leftarrow>[0..<9]. count_true (w' x j) 10) \<le> (\<Sum>j\<leftarrow>[0..<9]. count_true (w x j) 10)"
      using le by (intro sum_list_nat_mono count_true_mono) (auto simp: le_fun_def)
  next
    show "i \<in> set [0..<9]" using rng by simp
  next
    show "(\<Sum>j\<leftarrow>[0..<9]. count_true (w' i j) 10) < (\<Sum>j\<leftarrow>[0..<9]. count_true (w i j) 10)"
      by (rule row)
  qed
qed

lemma clear_where_le: "clear_where sel w \<le> w"
  by (auto simp: clear_where_def le_fun_def)

lemma set_board_value_le: "snd (set_board_value b w i j n) \<le> w"
  by (auto simp: set_board_value_def Let_def le_fun_def)

lemma add_back_le:
  "w \<le> w0 \<Longrightarrow> w0 i j n \<Longrightarrow> w0 i j m \<Longrightarrow> w0 i2 j2 n \<Longrightarrow> w0 i2 j2 m
     \<Longrightarrow> add_back i j i2 j2 n m w \<le> w0"
  by (auto simp: add_back_def le_fun_def)

lemma m3_pair_step_le:
  assumes "w \<le> w0" "w0 i j n" "w0 i j m" "w0 (fst c2) (snd c2) n" "w0 (fst c2) (snd c2) m"
  shows "m3_pair_step i j n m w c2 \<le> w0"
proof -
  obtain i2 j2 where c2: "c2 = (i2, j2)" by (cases c2)
  have cl: "clear_where sel w \<le> w0" for sel
    using assms(1) clear_where_le[of sel w] by (rule order_trans[rotated])
  have cl2: "clear_where sel' (clear_where sel w) \<le> w0" for sel sel'
    using cl[of sel] clear_where_le[of sel' "clear_where sel w"] by (rule order_trans[rotated])
  show ?thesis
    using assms cl cl2 unfolding c2 m3_pair_step_def Let_def
    by (auto intro!: add_back_le)
qed

lemma m3_fold_le:
  assumes "w \<le> w0" "w0 i j n" "w0 i j m" "\<forall>c \<in> set p. w0 (fst c) (snd c) n \<and> w0 (fst c) (snd c) m"
  shows "foldl (m3_pair_step i j n m) w p \<le> w0"
  using assms
proof (induction p arbitrary: w)
  case Nil
  then show ?case by simp
next
  case (Cons c p)
  have "m3_pair_step i j n m w c \<le> w0"
    using Cons.prems by (intro m3_pair_step_le) auto
  then show ?case using Cons by simp
qed

definition pairs_ok :: "working \<Rightarrow> pairs \<Rightarrow> bool" where
  "pairs_ok w0 prs = (\<forall>n m. \<forall>c \<in> set (prs (n, m)). w0 (fst c) (snd c) n \<and> w0 (fst c) (snd c) m)"

lemma filter_two:
  "filter P xs = [n, m] \<Longrightarrow> P n \<and> P m"
proof -
  assume eq: "filter P xs = [n, m]"
  have "n \<in> set (filter P xs)" "m \<in> set (filter P xs)" unfolding eq by simp_all
  then show ?thesis by simp
qed

lemma m3_loop_le:
  "w \<le> w0 \<Longrightarrow> pairs_ok w0 prs \<Longrightarrow> snd (m3_loop found prs w) \<le> w0"
proof (induction found prs w rule: m3_loop.induct)
  case (1 prs w)
  then show ?case by simp
next
  case (2 i j rest prs w)
  show ?case
  proof (cases "\<exists>n m. filter (w i j) [0..<10] = [n, m]")
    case True
    then obtain n m where nm: "filter (w i j) [0..<10] = [n, m]" by blast
    then have "w i j n" "w i j m" using filter_two by fastforce+
    then have w0: "w0 i j n" "w0 i j m" using "2.prems"(1) by (auto simp: le_fun_def)
    have fold: "foldl (m3_pair_step i j n m) w (prs (n, m)) \<le> w0"
      using "2.prems" w0 by (intro m3_fold_le) (auto simp: pairs_ok_def)
    have ok: "pairs_ok w0 (prs((n, m) := prs (n, m) @ [(i, j)]))"
      using "2.prems"(2) w0 by (auto simp: pairs_ok_def)
    have eq: "m3_loop ((i, j) # rest) prs w =
        m3_loop rest (prs((n, m) := prs (n, m) @ [(i, j)])) (foldl (m3_pair_step i j n m) w (prs (n, m)))"
      using nm by (simp add: Let_def)
    show ?thesis
      unfolding eq by (rule "2.IH"[OF nm refl refl refl refl fold ok])
  next
    case False
    then show ?thesis using "2.prems"(1) by (auto split: list.splits)
  qed
qed

lemma m3_loop_restart:
  assumes "w \<le> w0" "pairs_ok w0 prs"
    and "\<forall>(i, j) \<in> set found. i < 9 \<and> j < 9 \<and> count_true (w0 i j) 10 = 2"
    and "fst (m3_loop found prs w)"
  shows "wsum (snd (m3_loop found prs w)) < wsum w0"
  using assms
proof (induction found prs w rule: m3_loop.induct)
  case (1 prs w)
  then show ?case by simp
next
  case (2 i j rest prs w)
  show ?case
  proof (cases "\<exists>n m. filter (w i j) [0..<10] = [n, m]")
    case True
    then obtain n m where nm: "filter (w i j) [0..<10] = [n, m]" by blast
    then have "w i j n" "w i j m" using filter_two by fastforce+
    then have w0: "w0 i j n" "w0 i j m" using "2.prems"(1) by (auto simp: le_fun_def)
    have fold: "foldl (m3_pair_step i j n m) w (prs (n, m)) \<le> w0"
      using "2.prems" w0 by (intro m3_fold_le) (auto simp: pairs_ok_def)
    have ok: "pairs_ok w0 (prs((n, m) := prs (n, m) @ [(i, j)]))"
      using "2.prems"(2) w0 by (auto simp: pairs_ok_def)
    have rest: "\<forall>(i, j) \<in> set rest. i < 9 \<and> j < 9 \<and> count_true (w0 i j) 10 = 2"
      using "2.prems"(3) by auto
    have eq: "m3_loop ((i, j) # rest) prs w =
        m3_loop rest (prs((n, m) := prs (n, m) @ [(i, j)])) (foldl (m3_pair_step i j n m) w (prs (n, m)))"
      using nm by (simp add: Let_def)
    have "fst (m3_loop rest (prs((n, m) := prs (n, m) @ [(i, j)])) (foldl (m3_pair_step i j n m) w (prs (n, m))))"
      using "2.prems"(4) unfolding eq .
    from "2.IH"[OF nm refl refl refl refl fold ok rest this] show ?thesis
      unfolding eq .
  next
    case False
    have rng: "i < 9" "j < 9" and two: "count_true (w0 i j) 10 = 2"
      using "2.prems"(3) by auto
    have res: "snd (m3_loop ((i, j) # rest) prs w) = w"
      using False by (auto split: list.splits)
    have "\<exists>n < 10. w0 i j n \<and> \<not> w i j n"
    proof (rule ccontr)
      assume "\<not> ?thesis"
      then have "filter (w i j) [0..<10] = filter (w0 i j) [0..<10]"
        using "2.prems"(1) by (intro filter_cong) (auto simp: le_fun_def)
      then have "length (filter (w i j) [0..<10]) = 2"
        using two by (simp add: count_true_def)
      then have "\<exists>n m. filter (w i j) [0..<10] = [n, m]"
        by (metis One_nat_def Suc_1 length_0_conv length_Suc_conv)
      with False show False by simp
    qed
    then obtain n where "n < 10" "w0 i j n" "\<not> w i j n" by blast
    then show ?thesis
      unfolding res using "2.prems"(1) rng by (intro wsum_strict[where i = i and j = j and n = n]) auto
  qed
qed

lemma m3_found_range:
  "\<forall>(i, j) \<in> set (m3_found w). i < 9 \<and> j < 9 \<and> count_true (w i j) 10 = 2"
  by (auto simp: m3_found_def)

lemma pairs_ok_empty: "pairs_ok w (\<lambda>_. [])"
  by (simp add: pairs_ok_def)

function wr_method_3 :: "working \<Rightarrow> working" where
  "wr_method_3 w =
     (let r = m3_loop (m3_found w) (\<lambda>_. []) w in
      if fst r then wr_method_3 (snd r) else snd r)"
  by pat_completeness auto
termination
proof (relation "measure wsum")
  show "wf (measure wsum)" by simp
next
  fix w r
  assume "r = m3_loop (m3_found w) (\<lambda>_. []) w" "fst r"
  then show "(snd r, w) \<in> measure wsum"
    using m3_loop_restart[OF order_refl pairs_ok_empty m3_found_range, of w] by simp
qed

declare wr_method_3.simps [simp del]

lemma wr_method_3_le: "wr_method_3 w \<le> w"
proof (induction w rule: wr_method_3.induct)
  case (1 w)
  have step: "snd (m3_loop (m3_found w) (\<lambda>_. []) w) \<le> w"
    by (rule m3_loop_le[OF order_refl pairs_ok_empty])
  show ?case
  proof (cases "fst (m3_loop (m3_found w) (\<lambda>_. []) w)")
    case True
    with "1.IH"[OF refl True] step show ?thesis
      by (subst wr_method_3.simps) (auto simp: Let_def intro: order_trans)
  next
    case False
    with step show ?thesis by (subst wr_method_3.simps) (simp add: Let_def)
  qed
qed

lemma clear_where_trans: "w \<le> w0 \<Longrightarrow> clear_where sel w \<le> w0"
  using clear_where_le[of sel w] by (rule order_trans)

lemma m1_rows_loop_le: "m1_rows_loop wbr found w = Inr w' \<Longrightarrow> w \<le> w0 \<Longrightarrow> w' \<le> w0"
proof (induction wbr found w rule: m1_rows_loop.induct)
  case (1 wbr w)
  then show ?case by simp
next
  case (2 wbr j n rest w)
  then show ?case
    by (auto simp: Let_def split: sum.splits intro: clear_where_trans)
qed

lemma m1_cols_loop_le: "m1_cols_loop wbc found w = Inr w' \<Longrightarrow> w \<le> w0 \<Longrightarrow> w' \<le> w0"
proof (induction wbc found w rule: m1_cols_loop.induct)
  case (1 wbc w)
  then show ?case by simp
next
  case (2 wbc i n rest w)
  then show ?case
    by (auto simp: Let_def split: sum.splits intro: clear_where_trans)
qed

lemma wr_method_1_le: "wr_method_1 w = Inr w' \<Longrightarrow> w' \<le> w"
  unfolding wr_method_1_def Let_def
  by (auto split: sum.splits dest!: m1_rows_loop_le[OF _ order_refl] intro: m1_cols_loop_le)

lemma m2_rows_loop_le: "m2_rows_loop found w = Inr w' \<Longrightarrow> w \<le> w0 \<Longrightarrow> w' \<le> w0"
proof (induction found w rule: m2_rows_loop.induct)
  case (1 w)
  then show ?case by simp
next
  case (2 x y n rest w)
  show ?case
  proof (cases "block_nonzero w x y n")
    case Nil
    with "2.prems" show ?thesis by simp
  next
    case (Cons f fs)
    obtain f0 f1 where f: "f = (f0, f1)" by (cases f)
    let ?w = "clear_where (\<lambda>a c d. a = f0 + 3 * x \<and> c < 9 \<and> c div 3 \<noteq> y \<and> d = n) w"
    have "m2_rows_loop rest ?w = Inr w'"
      using "2.prems"(1) Cons f by (simp add: Let_def)
    moreover have "?w \<le> w0"
      using "2.prems"(2) by (rule clear_where_trans)
    ultimately show ?thesis
      using "2.IH"[OF Cons f[symmetric] refl] unfolding f by simp
  qed
qed

lemma m2_cols_loop_le: "m2_cols_loop found w = Inr w' \<Longrightarrow> w \<le> w0 \<Longrightarrow> w' \<le> w0"
proof (induction found w rule: m2_cols_loop.induct)
  case (1 w)
  then show ?case by simp
next
  case (2 x y n rest w)
  show ?case
  proof (cases "block_nonzero w x y n")
    case Nil
    with "2.prems" show ?thesis by simp
  next
    case (Cons f fs)
    obtain f0 f1 where f: "f = (f0, f1)" by (cases f)
    let ?w = "clear_where (\<lambda>a c d. a < 9 \<and> a div 3 \<noteq> x \<and> c = f1 + 3 * y \<and> d = n) w"
    have "m2_cols_loop rest ?w = Inr w'"
      using "2.prems"(1) Cons f by (simp add: Let_def)
    moreover have "?w \<le> w0"
      using "2.prems"(2) by (rule clear_where_trans)
    ultimately show ?thesis
      using "2.IH"[OF Cons f[symmetric] refl] unfolding f by simp
  qed
qed

lemma wr_method_2_le: "wr_method_2 w = Inr w' \<Longrightarrow> w' \<le> w"
  unfolding wr_method_2_def
  by (auto split: sum.splits dest!: m2_rows_loop_le[OF _ order_refl] intro: m2_cols_loop_le)

lemma m4_row_combos_le: "m4_row_combos N i cs w = Inr w' \<Longrightarrow> w \<le> w0 \<Longrightarrow> w' \<le> w0"
proof (induction N i cs w rule: m4_row_combos.induct)
  case (1 N i w)
  then show ?case by simp
next
  case (2 N i c cs w)
  then show ?case
    by (auto simp: Let_def split: if_splits intro: clear_where_trans)
qed

lemma m4_col_combos_le: "m4_col_combos N j cs w = Inr w' \<Longrightarrow> w \<le> w0 \<Longrightarrow> w' \<le> w0"
proof (induction N j cs w rule: m4_col_combos.induct)
  case (1 N j w)
  then show ?case by simp
next
  case (2 N j c cs w)
  then show ?case
    by (auto simp: Let_def split: if_splits intro: clear_where_trans)
qed

lemma m4_rows_le: "m4_rows dat N rows w = Inr w' \<Longrightarrow> w \<le> w0 \<Longrightarrow> w' \<le> w0"
proof (induction dat N rows w rule: m4_rows.induct)
  case (1 dat N w)
  then show ?case by simp
next
  case (2 dat N i rest w)
  then show ?case
    by (auto simp: Let_def split: if_splits sum.splits dest: m4_row_combos_le)
qed

lemma m4_cols_le: "m4_cols dat N cols w = Inr w' \<Longrightarrow> w \<le> w0 \<Longrightarrow> w' \<le> w0"
proof (induction dat N cols w rule: m4_cols.induct)
  case (1 dat N w)
  then show ?case by simp
next
  case (2 dat N j rest w)
  then show ?case
    by (auto simp: Let_def split: if_splits sum.splits dest: m4_col_combos_le)
qed

lemma wr_method_4_le: "wr_method_4 w N = Inr w' \<Longrightarrow> w' \<le> w"
  unfolding wr_method_4_def Let_def
  by (auto split: sum.splits dest!: m4_rows_le[OF _ order_refl] intro: m4_cols_le)

subsection \<open>\<open>reduce_working_space\<close>\<close>

definition methods_1_3 :: "working \<Rightarrow> error + working" where
  "methods_1_3 w =
     (case wr_method_1 w of
        Inl e \<Rightarrow> Inl e
      | Inr w1 \<Rightarrow> (case wr_method_2 w1 of Inl e \<Rightarrow> Inl e | Inr w2 \<Rightarrow> Inr (wr_method_3 w2)))"

text \<open>\<open>working.sum(2).max()\<close>\<close>

definition max_cell :: "working \<Rightarrow> nat" where
  "max_cell w = fold max (map (\<lambda>(i, j). count_true (w i j) 10) (List.product [0..<9] [0..<9])) 0"

text \<open>
  The loop \<open>for N in range(3, ...)\<close>; the flag says whether it left by \<open>break\<close>, that is
  whether \<open>rem != old_rem\<close> afterwards.
\<close>

fun m4_range :: "nat list \<Rightarrow> nat \<Rightarrow> working \<Rightarrow> error + (bool \<times> working)" where
  "m4_range [] old_rem w = Inr (False, w)"
| "m4_range (N # Ns) old_rem w =
     (case wr_method_4 w N of
        Inl e \<Rightarrow> Inl e
      | Inr w' \<Rightarrow> if wsum w' \<noteq> old_rem then Inr (True, w') else m4_range Ns old_rem w')"

lemma methods_1_3_le:
  assumes "methods_1_3 w = Inr w'"
  shows "w' \<le> w"
proof -
  from assms obtain w1 w2 where 1: "wr_method_1 w = Inr w1" and 2: "wr_method_2 w1 = Inr w2"
    and 3: "w' = wr_method_3 w2"
    by (auto simp: methods_1_3_def split: sum.splits)
  have a: "w' \<le> w2" unfolding 3 by (rule wr_method_3_le)
  have b: "w2 \<le> w1" using 2 by (rule wr_method_2_le)
  have c: "w1 \<le> w" using 1 by (rule wr_method_1_le)
  show ?thesis using a b c by (blast intro: order_trans)
qed

lemma m4_range_le: "m4_range Ns old_rem w = Inr (p, w') \<Longrightarrow> w' \<le> w"
proof (induction Ns old_rem w rule: m4_range.induct)
  case (1 old_rem w)
  then show ?case by simp
next
  case (2 N Ns old_rem w)
  then show ?case
    by (auto split: sum.splits if_splits dest!: wr_method_4_le intro: order_trans)
qed

lemma m4_range_progress: "m4_range Ns old_rem w = Inr (True, w') \<Longrightarrow> wsum w' \<noteq> old_rem"
  by (induction Ns old_rem w rule: m4_range.induct) (auto split: sum.splits if_splits)

function reduce_loop :: "working \<Rightarrow> bool \<Rightarrow> error + (bool \<times> working)" where
  "reduce_loop w looped =
     (if wsum w = 0 then Inr (looped, w)
      else (case methods_1_3 w of
              Inl e \<Rightarrow> Inl e
            | Inr w1 \<Rightarrow>
                if wsum w1 = wsum w then
                  (if \<not> looped then
                     (case m4_range [3..<max_cell w1 + 1] (wsum w) w1 of
                        Inl e \<Rightarrow> Inl e
                      | Inr (progress, w2) \<Rightarrow>
                          if progress then reduce_loop w2 True else Inr (looped, w2))
                   else Inr (looped, w1))
                else reduce_loop w1 True))"
  by pat_completeness auto
termination
proof (relation "measure (\<lambda>(w, looped). wsum w)")
  show "wf (measure (\<lambda>(w, looped). wsum w))" by simp
next
  fix w :: working and looped w1 r progress w2
  assume m: "methods_1_3 w = Inr w1" and same: "wsum w1 = wsum w"
    and r: "m4_range [3..<max_cell w1 + 1] (wsum w) w1 = Inr r" "(progress, w2) = r" and p: progress
  then have "m4_range [3..<max_cell w1 + 1] (wsum w) w1 = Inr (True, w2)" by auto
  from m4_range_le[OF this] m4_range_progress[OF this] same
  have "wsum w2 < wsum w" using wsum_mono[of w2 w1] by simp
  then show "((w2, True), (w, looped)) \<in> measure (\<lambda>(w, looped). wsum w)" by simp
next
  fix w :: working and looped :: bool and w1
  assume "methods_1_3 w = Inr w1" "wsum w1 \<noteq> wsum w"
  then have "wsum w1 < wsum w" using wsum_mono[OF methods_1_3_le, of w w1] by simp
  then show "((w1, True), (w, looped)) \<in> measure (\<lambda>(w, looped). wsum w)" by simp
qed

declare reduce_loop.simps [simp del]

definition reduce_working_space :: "working \<Rightarrow> error + (bool \<times> working)" where
  "reduce_working_space w = reduce_loop w False"

section \<open>\<open>solve_sudoku\<close>\<close>

text \<open>
  The loop is instrumented with two ghost values that the source does not compute: the
  trace of the passes and Reducer calls made so far, each with its result, and the number
  of iterations of the \<open>while\<close> loop that were started.
\<close>

datatype event = Pass nat bool | Reduce bool

datatype flow = Continue | Return

datatype exit = Solved | Stuck

text \<open>The condition of the \<open>if\<close> in the loop body: which finder runs on which axis.\<close>

definition simple_pass :: "board \<Rightarrow> working \<Rightarrow> nat \<Rightarrow> error + (bool \<times> board \<times> working)" where
  "simple_pass b w axis =
     (if axis \<noteq> 3 then find_simple_values b w axis else Inr (find_simple_values_in_block b w))"

text \<open>The loop \<open>for axis in range(4)\<close>, from the axes still to be visited.\<close>

fun axes_loop :: "nat list \<Rightarrow> board \<Rightarrow> working \<Rightarrow> nat \<Rightarrow> event list
    \<Rightarrow> error + (flow \<times> board \<times> working \<times> nat \<times> event list)" where
  "axes_loop [] b w nf tr = Inr (Continue, b, w, nf, tr)"
| "axes_loop (axis # rest) b w nf tr =
     (case simple_pass b w axis of
        Inl e \<Rightarrow> Inl e
      | Inr (found, b', w') \<Rightarrow>
          if found then axes_loop rest b' w' nf (tr @ [Pass axis True])
          else if nf + 1 = 4 then
            (case reduce_working_space w' of
               Inl e \<Rightarrow> Inl e
             | Inr (progress, w'') \<Rightarrow>
                 if \<not> progress then Inr (Return, b', w'', nf + 1, tr @ [Pass axis False, Reduce False])
                 else Inr (Continue, b', w'', 0, tr @ [Pass axis False, Reduce True]))
          else axes_loop rest b' w' (nf + 1) (tr @ [Pass axis False]))"

partial_function (option) solve_loop :: "board \<Rightarrow> working \<Rightarrow> nat \<Rightarrow> event list \<Rightarrow> nat
    \<Rightarrow> ((error + exit \<times> board \<times> working \<times> event list) \<times> nat) option" where
  "solve_loop b w nf tr k =
     (if wsum w = 0 then Some (Inr (Solved, b, w, tr), k)
      else (case axes_loop [0..<4] b w nf tr of
              Inl e \<Rightarrow> Some (Inl e, k + 1)
            | Inr (fl, b', w', nf', tr') \<Rightarrow>
                (case fl of
                   Return \<Rightarrow> Some (Inr (Stuck, b', w', tr'), k + 1)
                 | Continue \<Rightarrow> solve_loop b' w' nf' tr' (k + 1))))"

declare solve_loop.simps [code]

definition solve_run :: "board \<Rightarrow> ((error + exit \<times> board \<times> working \<times> event list) \<times> nat) option" where
  "solve_run b = solve_loop b (init_working b) 0 [] 0"

text \<open>What \<open>solve_sudoku\<close> itself returns: the board, unless an exception escapes.\<close>

definition solve_sudoku :: "board \<Rightarrow> (error + board) option" where
  "solve_sudoku b = map_option (\<lambda>(r, k). case r of Inl e \<Rightarrow> Inl e | Inr (x, b', w', tr) \<Rightarrow> Inr b') (solve_run b)"

text \<open>A board written as its list of rows.\<close>

definition grid :: "nat list list \<Rightarrow> board" where
  "grid rows = (\<lambda>i j. rows ! i ! j)"

section \<open>The Assigner\<close>

lemma in_block_iff: "(i div 3 * 3 \<le> a \<and> a < i div 3 * 3 + 3) = (a div 3 = i div (3::nat))"
proof -
  have "(q * 3 \<le> a \<and> a < q * 3 + 3) = (a div 3 = q)" for q :: nat
    by (auto simp: less_mult_imp_div_less div_nat_eqI intro!: div_nat_eqI[symmetric])
  then show ?thesis .
qed

lemma fst_set_board_value: "fst (set_board_value b w i j n) = b(i := (b i)(j := n))"
  by (simp add: set_board_value_def Let_def)

lemma snd_set_board_value:
  "snd (set_board_value b w i j n) a c d =
     (w a c d \<and> \<not> (a = i \<and> d = n) \<and> \<not> (c = j \<and> d = n) \<and> \<not> (a = i \<and> c = j) \<and>
      \<not> (a div 3 = i div 3 \<and> c div 3 = j div 3 \<and> d = n))"
  unfolding set_board_value_def Let_def snd_conv in_block_iff by auto

text \<open>
  Claim C3.  For every board and working array, every cell \<open>(i, j)\<close> of the grid and every
  digit \<open>n\<close> from 1 to 9, after \<open>set_board_value(board, working, i, j, n)\<close> the board holds
  \<open>n\<close> at \<open>(i, j)\<close>, candidate \<open>n\<close> is cleared from every cell of row \<open>i\<close>, of column \<open>j\<close> and
  of the 3x3 block containing \<open>(i, j)\<close>, and every candidate of the cell \<open>(i, j)\<close> itself is
  cleared.
\<close>

theorem set_board_value_clears:
  assumes "i < 9" "j < 9" "1 \<le> n" "n \<le> 9"
  shows "fst (set_board_value b w i j n) i j = n
       \<and> (\<forall>c < 9. \<not> snd (set_board_value b w i j n) i c n)
       \<and> (\<forall>a < 9. \<not> snd (set_board_value b w i j n) a j n)
       \<and> (\<forall>a < 9. \<forall>c < 9. a div 3 = i div 3 \<and> c div 3 = j div 3
             \<longrightarrow> \<not> snd (set_board_value b w i j n) a c n)
       \<and> (\<forall>d < 10. \<not> snd (set_board_value b w i j n) i j d)"
  by (simp add: fst_set_board_value snd_set_board_value)

theorem set_board_value_clears_witness:
  "fst (set_board_value (\<lambda>_ _. 0) (\<lambda>_ _ _. True) 4 7 5) 4 7 = 5
   \<and> \<not> snd (set_board_value (\<lambda>_ _. 0) (\<lambda>_ _ _. True) 4 7 5) 4 0 5
   \<and> \<not> snd (set_board_value (\<lambda>_ _. 0) (\<lambda>_ _ _. True) 4 7 5) 8 7 5
   \<and> \<not> snd (set_board_value (\<lambda>_ _. 0) (\<lambda>_ _ _. True) 4 7 5) 3 6 5
   \<and> \<not> snd (set_board_value (\<lambda>_ _. 0) (\<lambda>_ _ _. True) 4 7 5) 4 7 2
   \<and> snd (set_board_value (\<lambda>_ _. 0) (\<lambda>_ _ _. True) 4 7 5) 3 6 2"
proof -
  have h: "(4::nat) < 9" "(7::nat) < 9" "(1::nat) \<le> 5" "(5::nat) \<le> 9" by simp_all
  note t = set_board_value_clears[OF h, of "\<lambda>_ _. 0" "\<lambda>_ _ _. True"]
  from t have 1: "fst (set_board_value (\<lambda>_ _. 0) (\<lambda>_ _ _. True) 4 7 5) 4 7 = 5" by blast
  from t have "\<forall>c < 9. \<not> snd (set_board_value (\<lambda>_ _. 0) (\<lambda>_ _ _. True) 4 7 5) 4 c 5" by blast
  then have 2: "\<not> snd (set_board_value (\<lambda>_ _. 0) (\<lambda>_ _ _. True) 4 7 5) 4 0 5" by simp
  from t have "\<forall>a < 9. \<not> snd (set_board_value (\<lambda>_ _. 0) (\<lambda>_ _ _. True) 4 7 5) a 7 5" by blast
  then have 3: "\<not> snd (set_board_value (\<lambda>_ _. 0) (\<lambda>_ _ _. True) 4 7 5) 8 7 5" by simp
  from t have "\<forall>a < 9. \<forall>c < 9. a div 3 = 4 div 3 \<and> c div 3 = 7 div 3
      \<longrightarrow> \<not> snd (set_board_value (\<lambda>_ _. 0) (\<lambda>_ _ _. True) 4 7 5) a c 5" by blast
  then have 4: "\<not> snd (set_board_value (\<lambda>_ _. 0) (\<lambda>_ _ _. True) 4 7 5) 3 6 5" by simp
  from t have "\<forall>d < 10. \<not> snd (set_board_value (\<lambda>_ _. 0) (\<lambda>_ _ _. True) 4 7 5) 4 7 d" by blast
  then have 5: "\<not> snd (set_board_value (\<lambda>_ _. 0) (\<lambda>_ _ _. True) 4 7 5) 4 7 2" by simp
  have 6: "snd (set_board_value (\<lambda>_ _. 0) (\<lambda>_ _ _. True) 4 7 5) 3 6 2"
    by (simp add: set_board_value_def Let_def)
  from 1 2 3 4 5 6 show ?thesis by blast
qed

subsection \<open>The Reducer only clears, and clears when it reports progress\<close>

lemma reduce_loop_le: "reduce_loop w looped = Inr (r, w') \<Longrightarrow> w' \<le> w"
proof (induction w looped rule: reduce_loop.induct)
  case (1 w looped)
  show ?case
  proof (cases "wsum w = 0")
    case True
    with "1.prems" show ?thesis by (simp add: reduce_loop.simps)
  next
    case nz: False
    show ?thesis
    proof (cases "methods_1_3 w")
      case (Inl e)
      with "1.prems" nz show ?thesis by (simp add: reduce_loop.simps)
    next
      case (Inr w1)
      have w1: "w1 \<le> w" using Inr by (rule methods_1_3_le)
      show ?thesis
      proof (cases "wsum w1 = wsum w")
        case same: True
        show ?thesis
        proof (cases looped)
          case True
          with "1.prems" nz Inr same w1 show ?thesis by (simp add: reduce_loop.simps)
        next
          case nl: False
          show ?thesis
          proof (cases "m4_range [3..<max_cell w1 + 1] (wsum w) w1")
            case (Inl e)
            with "1.prems" nz Inr same nl show ?thesis by (simp add: reduce_loop.simps)
          next
            case r: (Inr pr)
            obtain progress w2 where pr: "pr = (progress, w2)" by (cases pr)
            have w2: "w2 \<le> w1" using r unfolding pr by (rule m4_range_le)
            show ?thesis
            proof (cases progress)
              case True
              have "reduce_loop w2 True = Inr (r, w')"
                using "1.prems" nz Inr same nl r pr True by (simp add: reduce_loop.simps)
              from "1.IH"(1)[OF nz Inr same _ r pr[symmetric] True this] nl
              have "w' \<le> w2" by simp
              with w2 w1 show ?thesis by (blast intro: order_trans)
            next
              case False
              with "1.prems" nz Inr same nl r pr have "w' = w2" by (simp add: reduce_loop.simps)
              with w2 w1 show ?thesis by (blast intro: order_trans)
            qed
          qed
        qed
      next
        case diff: False
        have "reduce_loop w1 True = Inr (r, w')"
          using "1.prems" nz Inr diff by (simp add: reduce_loop.simps)
        from "1.IH"(2)[OF nz Inr diff this] w1 show ?thesis by (blast intro: order_trans)
      qed
    qed
  qed
qed

lemma reduce_loop_progress: "reduce_loop w looped = Inr (True, w') \<Longrightarrow> \<not> looped \<Longrightarrow> wsum w' < wsum w"
proof -
  assume a: "reduce_loop w looped = Inr (True, w')" and nl: "\<not> looped"
  show ?thesis
  proof (cases "wsum w = 0")
    case True
    with a nl show ?thesis by (simp add: reduce_loop.simps)
  next
    case nz: False
    show ?thesis
    proof (cases "methods_1_3 w")
      case (Inl e)
      with a nz show ?thesis by (simp add: reduce_loop.simps)
    next
      case (Inr w1)
      have w1: "w1 \<le> w" using Inr by (rule methods_1_3_le)
      show ?thesis
      proof (cases "wsum w1 = wsum w")
        case same: True
        show ?thesis
        proof (cases "m4_range [3..<max_cell w1 + 1] (wsum w) w1")
          case (Inl e)
          with a nz Inr same nl show ?thesis by (simp add: reduce_loop.simps)
        next
          case r: (Inr pr)
          obtain progress w2 where pr: "pr = (progress, w2)" by (cases pr)
          have w2: "w2 \<le> w1" using r unfolding pr by (rule m4_range_le)
          show ?thesis
          proof (cases progress)
            case True
            have rl: "reduce_loop w2 True = Inr (True, w')"
              using a nz Inr same nl r pr True by (simp add: reduce_loop.simps)
            have "m4_range [3..<max_cell w1 + 1] (wsum w) w1 = Inr (True, w2)"
              using r pr True by simp
            then have "wsum w2 \<noteq> wsum w" by (rule m4_range_progress)
            moreover have "wsum w2 \<le> wsum w" using wsum_mono[OF w2] same by simp
            moreover have "wsum w' \<le> wsum w2" using reduce_loop_le[OF rl] by (rule wsum_mono)
            ultimately show ?thesis by simp
          next
            case False
            with a nz Inr same nl r pr show ?thesis by (simp add: reduce_loop.simps)
          qed
        qed
      next
        case diff: False
        have rl: "reduce_loop w1 True = Inr (True, w')"
          using a nz Inr diff by (simp add: reduce_loop.simps)
        have "wsum w1 < wsum w" using wsum_mono[OF w1] diff by simp
        moreover have "wsum w' \<le> wsum w1" using reduce_loop_le[OF rl] by (rule wsum_mono)
        ultimately show ?thesis by simp
      qed
    qed
  qed
qed

lemma reduce_working_space_le: "reduce_working_space w = Inr (r, w') \<Longrightarrow> w' \<le> w"
  unfolding reduce_working_space_def by (rule reduce_loop_le)

lemma reduce_working_space_progress: "reduce_working_space w = Inr (True, w') \<Longrightarrow> wsum w' < wsum w"
  unfolding reduce_working_space_def using reduce_loop_progress[of w False w'] by simp

section \<open>Invariants of the finders\<close>

text \<open>
  \<open>settled b w\<close>: a cell that holds a digit has no candidate, and index 0 of the last axis is
  never a candidate.  \<open>keeps b b'\<close>: every digit of \<open>b\<close> is still in place in \<open>b'\<close>.
\<close>

definition settled :: "board \<Rightarrow> working \<Rightarrow> bool" where
  "settled b w = (\<forall>i < 9. \<forall>j < 9. (b i j \<noteq> 0 \<longrightarrow> (\<forall>n < 10. \<not> w i j n)) \<and> \<not> w i j 0)"

definition keeps :: "board \<Rightarrow> board \<Rightarrow> bool" where
  "keeps b b' = (\<forall>i < 9. \<forall>j < 9. b i j \<noteq> 0 \<longrightarrow> b' i j = b i j)"

lemma keeps_refl: "keeps b b"
  by (simp add: keeps_def)

lemma keeps_trans: "keeps b b1 \<Longrightarrow> keeps b1 b2 \<Longrightarrow> keeps b b2"
  unfolding keeps_def by metis

lemma settled_mono: "settled b w \<Longrightarrow> w' \<le> w \<Longrightarrow> settled b w'"
  unfolding settled_def le_fun_def le_bool_def by blast

lemma settled_init: "settled b (init_working b)"
  by (simp add: settled_def init_working_def table_working_def init_table_def Let_def)

lemma first_nonzero_Inr: "first_nonzero v len = Inr k \<Longrightarrow> v k \<and> k < len"
proof -
  assume "first_nonzero v len = Inr k"
  then obtain ks where "filter v [0..<len] = k # ks"
    by (auto simp: first_nonzero_def split: list.splits)
  then have "k \<in> set (filter v [0..<len])" by simp
  then show ?thesis by simp
qed

text \<open>One assignment at a cell where the digit is still a candidate.\<close>

lemma assign_step:
  assumes cand: "w i j n" and rng: "i < 9" "j < 9" "n < 10"
  shows "wsum (snd (set_board_value b w i j n)) < wsum w"
    and "settled b w \<Longrightarrow> settled (fst (set_board_value b w i j n)) (snd (set_board_value b w i j n))"
    and "settled b w \<Longrightarrow> keeps b (fst (set_board_value b w i j n))"
proof -
  show "wsum (snd (set_board_value b w i j n)) < wsum w"
    using cand rng
    by (intro wsum_strict[where i = i and j = j and n = n] set_board_value_le)
       (simp_all add: snd_set_board_value)
next
  assume s: "settled b w"
  then have blank: "b i j = 0" and "n \<noteq> 0"
    using cand rng unfolding settled_def by metis+
  show "settled (fst (set_board_value b w i j n)) (snd (set_board_value b w i j n))"
    using s unfolding settled_def fst_set_board_value snd_set_board_value by auto
  show "keeps b (fst (set_board_value b w i j n))"
    using blank unfolding keeps_def fst_set_board_value by auto
qed

definition pos_ok :: "nat \<Rightarrow> nat \<times> nat \<Rightarrow> bool" where
  "pos_ok axis p = (fst p < 9 \<and> (if axis = 0 \<or> axis = 1 then snd p < 10 else snd p < 9))"

lemma simple_found_ok: "p \<in> set (simple_found w axis) \<Longrightarrow> pos_ok axis p"
  by (auto simp: simple_found_def pos_ok_def split: if_splits)

lemma simple_target_Inr:
  assumes "simple_target w axis a b = Inr (i, j, n)" "pos_ok axis (a, b)"
  shows "w i j n \<and> i < 9 \<and> j < 9 \<and> n < 10"
  using assms first_nonzero_Inr[of "\<lambda>i. w i a b" 9] first_nonzero_Inr[of "\<lambda>j. w a j b" 9]
    first_nonzero_Inr[of "\<lambda>n. w a b n" 10]
  by (auto simp: simple_target_def pos_ok_def split: if_splits sum.splits)

lemma simple_loop_inv:
  assumes "simple_loop axis found (b, w) = Inr (b', w')" "\<forall>p \<in> set found. pos_ok axis p"
  shows "w' \<le> w \<and> (found \<noteq> [] \<longrightarrow> wsum w' < wsum w) \<and> (settled b w \<longrightarrow> settled b' w' \<and> keeps b b')"
  using assms
proof (induction found arbitrary: b w)
  case Nil
  then show ?case by (simp add: keeps_refl)
next
  case (Cons p found)
  obtain a c where p: "p = (a, c)" by (cases p)
  from Cons.prems obtain i j n where t: "simple_target w axis a c = Inr (i, j, n)"
    by (auto simp: p split: sum.splits)
  have c: "w i j n" "i < 9" "j < 9" "n < 10"
    using simple_target_Inr[OF t] Cons.prems(2) p by auto
  let ?b = "fst (set_board_value b w i j n)" and ?w = "snd (set_board_value b w i j n)"
  have rest: "simple_loop axis found (?b, ?w) = Inr (b', w')"
    using Cons.prems(1) t by (simp add: p)
  have ih: "w' \<le> ?w \<and> (found \<noteq> [] \<longrightarrow> wsum w' < wsum ?w) \<and> (settled ?b ?w \<longrightarrow> settled b' w' \<and> keeps ?b b')"
    using Cons.IH[OF rest] Cons.prems(2) by simp
  have le: "w' \<le> w" using ih set_board_value_le[of b w i j n] by (blast intro: order_trans)
  have "wsum w' \<le> wsum ?w" using ih by (blast intro: wsum_mono)
  then have lt: "wsum w' < wsum w" using assign_step(1)[of w i j n b] c by simp
  have "settled b' w' \<and> keeps b b'" if "settled b w"
    using ih assign_step(2,3)[of w i j n b] c that by (blast intro: keeps_trans)
  with le lt show ?case by simp
qed

lemma find_simple_values_inv:
  assumes "find_simple_values b w axis = Inr (f, b', w')"
  shows "w' \<le> w \<and> (f \<longrightarrow> wsum w' < wsum w) \<and> (\<not> f \<longrightarrow> b' = b \<and> w' = w)
       \<and> (settled b w \<longrightarrow> settled b' w' \<and> keeps b b')"
proof (cases "simple_found w axis = []")
  case True
  with assms show ?thesis by (auto simp: find_simple_values_def keeps_refl)
next
  case False
  with assms have l: "simple_loop axis (simple_found w axis) (b, w) = Inr (b', w')" and f: f
    by (auto simp: find_simple_values_def split: sum.splits)
  from simple_loop_inv[OF l] simple_found_ok False f show ?thesis by blast
qed

lemma block_cells_range: "(xi, xj) \<in> set block_cells \<Longrightarrow> xi < 3 \<and> xj < 3"
  by (auto simp: block_cells_def)

lemma length_le_one_cases: "length xs \<le> 1 \<Longrightarrow> xs = [] \<or> (\<exists>x. xs = [x])"
  by (cases xs) auto

lemma block_step_inv:
  assumes one: "length (filter (\<lambda>(xi, xj). w0 (3 * x + xi) (3 * y + xj) n) block_cells) = 1"
    and le: "w \<le> w0" and rng: "x < 3" "y < 3" "n < 10"
    and res: "block_assign x y n (filter (\<lambda>(xi, xj). w (3 * x + xi) (3 * y + xj) n) block_cells) (b, w) = (b', w')"
  shows "w' \<le> w \<and> (w = w0 \<longrightarrow> wsum w' < wsum w) \<and> (settled b w \<longrightarrow> settled b' w' \<and> keeps b b')"
proof -
  let ?live = "filter (\<lambda>(xi, xj). w (3 * x + xi) (3 * y + xj) n) block_cells"
  have "length ?live \<le> length (filter (\<lambda>(xi, xj). w0 (3 * x + xi) (3 * y + xj) n) block_cells)"
    using le by (intro length_filter_mono) (auto simp: le_fun_def)
  then have "length ?live \<le> 1" using one by simp
  then consider "?live = []" | c where "?live = [c]"
    using length_le_one_cases by blast
  then show ?thesis
  proof cases
    case 1
    with res have "b' = b" "w' = w" by simp_all
    moreover have "w \<noteq> w0" using 1 one by auto
    ultimately show ?thesis by (simp add: keeps_refl)
  next
    case 2
    obtain xi xj where c: "c = (xi, xj)" by (cases c)
    have "c \<in> set ?live" using 2 by simp
    then have cand: "w (xi + x * 3) (xj + y * 3) n" and r: "xi < 3" "xj < 3"
      using block_cells_range[of xi xj] by (auto simp: c mult.commute add.commute)
    have rng': "xi + x * 3 < 9" "xj + y * 3 < 9" using r rng by simp_all
    have eq: "set_board_value b w (xi + x * 3) (xj + y * 3) n = (b', w')"
      using res 2 c by simp
    show ?thesis
      using assign_step[of w "xi + x * 3" "xj + y * 3" n b] cand rng' rng(3)
        set_board_value_le[of b w "xi + x * 3" "xj + y * 3" n]
      unfolding eq by auto
  qed
qed

lemma block_loop_inv:
  assumes "block_loop found (b, w) = (b', w')" "w \<le> w0"
    and "\<forall>(x, y, n) \<in> set found. x < 3 \<and> y < 3 \<and> n < 10 \<and>
           length (filter (\<lambda>(xi, xj). w0 (3 * x + xi) (3 * y + xj) n) block_cells) = 1"
  shows "w' \<le> w \<and> (found \<noteq> [] \<and> w = w0 \<longrightarrow> wsum w' < wsum w) \<and> (settled b w \<longrightarrow> settled b' w' \<and> keeps b b')"
  using assms
proof (induction found arbitrary: b w)
  case Nil
  then show ?case by (simp add: keeps_refl)
next
  case (Cons p found)
  obtain x y n where p: "p = (x, y, n)" by (cases p)
  obtain b1 w1 where s: "block_assign x y n (filter (\<lambda>(xi, xj). w (3 * x + xi) (3 * y + xj) n) block_cells) (b, w) = (b1, w1)"
    by (cases "block_assign x y n (filter (\<lambda>(xi, xj). w (3 * x + xi) (3 * y + xj) n) block_cells) (b, w)")
  have hyp: "x < 3" "y < 3" "n < 10"
    "length (filter (\<lambda>(xi, xj). w0 (3 * x + xi) (3 * y + xj) n) block_cells) = 1"
    using Cons.prems(3) p by auto
  have step: "w1 \<le> w \<and> (w = w0 \<longrightarrow> wsum w1 < wsum w) \<and> (settled b w \<longrightarrow> settled b1 w1 \<and> keeps b b1)"
    using block_step_inv[OF hyp(4) Cons.prems(2) hyp(1,2,3) s] .
  have rest: "block_loop found (b1, w1) = (b', w')"
    using Cons.prems(1) s by (simp add: p)
  have w1: "w1 \<le> w0" using step Cons.prems(2) by (blast intro: order_trans)
  have ih: "w' \<le> w1 \<and> (settled b1 w1 \<longrightarrow> settled b' w' \<and> keeps b1 b')"
    using Cons.IH[OF rest w1] Cons.prems(3) by simp
  have le: "w' \<le> w" using ih step by (blast intro: order_trans)
  have "wsum w' \<le> wsum w1" using ih by (blast intro: wsum_mono)
  then have lt: "w = w0 \<longrightarrow> wsum w' < wsum w" using step by auto
  have "settled b' w' \<and> keeps b b'" if "settled b w"
    using ih step that by (blast intro: keeps_trans)
  with le lt show ?case by simp
qed

lemma block_found_ok:
  "\<forall>(x, y, n) \<in> set (block_found w). x < 3 \<and> y < 3 \<and> n < 10 \<and>
           length (filter (\<lambda>(xi, xj). w (3 * x + xi) (3 * y + xj) n) block_cells) = 1"
  by (auto simp: block_found_def)

lemma find_simple_values_in_block_inv:
  assumes "find_simple_values_in_block b w = (f, b', w')"
  shows "w' \<le> w \<and> (f \<longrightarrow> wsum w' < wsum w) \<and> (\<not> f \<longrightarrow> b' = b \<and> w' = w)
       \<and> (settled b w \<longrightarrow> settled b' w' \<and> keeps b b')"
proof (cases "block_found w = []")
  case True
  with assms show ?thesis by (auto simp: find_simple_values_in_block_def keeps_refl)
next
  case False
  with assms have l: "block_loop (block_found w) (b, w) = (b', w')" and f: f
    by (auto simp: find_simple_values_in_block_def)
  from block_loop_inv[OF l order_refl block_found_ok] False f show ?thesis by blast
qed

lemma simple_pass_inv:
  assumes "simple_pass b w axis = Inr (f, b', w')"
  shows "w' \<le> w \<and> (f \<longrightarrow> wsum w' < wsum w) \<and> (\<not> f \<longrightarrow> b' = b \<and> w' = w)
       \<and> (settled b w \<longrightarrow> settled b' w' \<and> keeps b b')"
  using assms find_simple_values_inv[of b w axis f b' w'] find_simple_values_in_block_inv[of b w f b' w']
  by (auto simp: simple_pass_def split: if_splits)

section \<open>The solver loop\<close>

lemma axes_loop_inv:
  assumes "axes_loop axes b w nf tr = Inr (fl, b', w', nf', tr')"
  shows "w' \<le> w \<and> (settled b w \<longrightarrow> settled b' w' \<and> keeps b b')
       \<and> (fl = Continue \<longrightarrow> nf < 4 \<longrightarrow> nf' < 4 \<and> (wsum w' < wsum w \<or> nf' = nf + length axes))"
  using assms
proof (induction axes arbitrary: b w nf tr)
  case Nil
  then show ?case by (simp add: keeps_refl)
next
  case (Cons axis rest)
  from Cons.prems obtain f b1 w1 where pass: "simple_pass b w axis = Inr (f, b1, w1)"
    by (auto split: sum.splits)
  note p = simple_pass_inv[OF pass]
  show ?case
  proof (cases f)
    case True
    have rest: "axes_loop rest b1 w1 nf (tr @ [Pass axis True]) = Inr (fl, b', w', nf', tr')"
      using Cons.prems pass True by simp
    note ih = Cons.IH[OF rest]
    have le: "w' \<le> w" using ih p by (blast intro: order_trans)
    have "wsum w' \<le> wsum w1" using ih by (blast intro: wsum_mono)
    then have lt: "wsum w' < wsum w" using p True by auto
    have "settled b' w' \<and> keeps b b'" if "settled b w"
      using ih p that by (blast intro: keeps_trans)
    with le lt ih show ?thesis by auto
  next
    case False
    then have same: "b1 = b" "w1 = w" using p by auto
    show ?thesis
    proof (cases "nf + 1 = 4")
      case True
      from Cons.prems pass False True obtain progress w2
        where red: "reduce_working_space w = Inr (progress, w2)"
        by (auto simp: same split: sum.splits)
      have res: "b' = b" "w' = w2" "fl = (if progress then Continue else Return)"
        "nf' = (if progress then 0 else nf + 1)"
        using Cons.prems pass False True red by (auto simp: same split: if_splits)
      have le: "w2 \<le> w" using red by (rule reduce_working_space_le)
      have "wsum w2 < wsum w" if "fl = Continue"
        using that res(3) red reduce_working_space_progress[of w w2] by (auto split: if_splits)
      moreover have "nf' < 4" if "fl = Continue"
        using that res(3,4) by (auto split: if_splits)
      ultimately show ?thesis
        using le res(1,2) settled_mono[OF _ le, of b] by (auto simp: keeps_refl)
    next
      case nf: False
      have rest: "axes_loop rest b w (nf + 1) (tr @ [Pass axis False]) = Inr (fl, b', w', nf', tr')"
        using Cons.prems pass False nf by (simp add: same)
      from Cons.IH[OF rest] nf show ?thesis by auto
    qed
  qed
qed

lemma solve_loop_total:
  assumes "nf < 4" "settled b w"
  shows "\<exists>res k'. solve_loop b w nf tr k = Some (res, k') \<and> k' \<le> k + wsum w \<and>
           (\<forall>x b' w' tr'. res = Inr (x, b', w', tr') \<longrightarrow>
              keeps b b' \<and> settled b' w' \<and> w' \<le> w \<and> (x = Solved \<longrightarrow> wsum w' = 0))"
  using assms
proof (induction "wsum w" arbitrary: b w nf tr k rule: less_induct)
  case less
  show ?case
  proof (cases "wsum w = 0")
    case True
    then show ?thesis
      using less.prems by (subst solve_loop.simps) (simp add: keeps_refl)
  next
    case nz: False
    show ?thesis
    proof (cases "axes_loop [0..<4] b w nf tr")
      case (Inl e)
      with nz show ?thesis by (subst solve_loop.simps) simp
    next
      case (Inr r)
      obtain fl b1 w1 nf1 tr1 where r: "r = (fl, b1, w1, nf1, tr1)" by (cases r)
      note inv = axes_loop_inv[OF Inr[unfolded r]]
      show ?thesis
      proof (cases fl)
        case Return
        with nz Inr r inv less.prems show ?thesis
          by (subst solve_loop.simps) simp
      next
        case Continue
        with inv less.prems have nf1: "nf1 < 4" and lt: "wsum w1 < wsum w" by auto
        have s1: "settled b1 w1" and k1: "keeps b b1" and le1: "w1 \<le> w"
          using inv less.prems by auto
        from less.hyps[OF lt nf1 s1, of tr1 "k + 1"]
        obtain res k' where run: "solve_loop b1 w1 nf1 tr1 (k + 1) = Some (res, k')"
          and k': "k' \<le> k + 1 + wsum w1"
          and post: "\<forall>x b' w' tr'. res = Inr (x, b', w', tr') \<longrightarrow>
              keeps b1 b' \<and> settled b' w' \<and> w' \<le> w1 \<and> (x = Solved \<longrightarrow> wsum w' = 0)"
          by blast
        have eq: "solve_loop b w nf tr k = Some (res, k')"
          using nz Inr r Continue run by (subst solve_loop.simps) simp
        have "k' \<le> k + wsum w" using k' lt by simp
        moreover have "keeps b b' \<and> settled b' w' \<and> w' \<le> w \<and> (x = Solved \<longrightarrow> wsum w' = 0)"
          if "res = Inr (x, b', w', tr')" for x b' w' tr'
          using post that k1 le1 by (blast intro: keeps_trans order_trans)
        ultimately show ?thesis using eq by blast
      qed
    qed
  qed
qed

end
